theory Spec2Isabelle
  imports Main
begin

section \<open>Go values behind the \<open>error\<close> interface\<close>

text \<open>
  The package stores and compares values of interface type \<open>error\<close>. Such a value is
  either nil or a dynamic value of some concrete type. The embedding keeps the shapes of
  values the comparison operator of the language distinguishes:
  scalars (integers, strings, pointers other than \<open>*errorChain\<close>), which are compared by
  value; floating-point numbers, where \<open>None\<close> is a NaN, which equals nothing, itself
  included, and \<open>Some v\<close> is the number \<open>v\<close>; slices, maps and functions, which cannot be
  compared; structs and arrays, compared field by field; fields of interface type, holding
  nil or a dynamic value; and pointers of type \<open>*errorChain\<close>, which are addresses into
  the heap of chain nodes.
  Every value carries the name of its type, so that the dynamic type can be read off it.
\<close>

datatype gval =
    VPrim string int
  | VFloat string "int option"
  | VUncmp string nat
  | VStruct string "gval list"
  | VIface "gval option"
  | VChain nat

datatype gtype =
    TPrim string
  | TFloat string
  | TUncmp string
  | TStruct string "gtype list"
  | TIface
  | TChainPtr

text \<open>An \<open>error\<close> is an interface value: \<open>None\<close> is nil.\<close>

type_synonym error = "gval option"

text \<open>\<open>reflect.TypeOf\<close> on a non-nil interface value: its dynamic type.\<close>

fun TypeOf :: "gval \<Rightarrow> gtype" where
  "TypeOf (VPrim n _) = TPrim n"
| "TypeOf (VFloat n _) = TFloat n"
| "TypeOf (VUncmp n _) = TUncmp n"
| "TypeOf (VStruct n fs) = TStruct n (map TypeOf fs)"
| "TypeOf (VIface _) = TIface"
| "TypeOf (VChain _) = TChainPtr"

text \<open>
  \<open>reflect.Type.Comparable\<close>: a property of the type alone. Interface types are
  comparable, a struct type is comparable when all its field types are.
\<close>

fun Comparable :: "gtype \<Rightarrow> bool" where
  "Comparable (TPrim _) = True"
| "Comparable (TFloat _) = True"
| "Comparable (TUncmp _) = False"
| "Comparable (TStruct _ ts) = list_all Comparable ts"
| "Comparable TIface = True"
| "Comparable TChainPtr = True"

text \<open>
  The operator \<open>==\<close>. \<open>go_eq\<close> compares two values of one type, \<open>fields_eq\<close> the fields of
  two structs in source order, stopping at the first difference, and \<open>iface_eq\<close> two
  interface values: both nil, or identical dynamic types and equal values. Comparing two
  interface values of identical dynamic type panics when that type is not comparable;
  \<open>None\<close> is that run-time panic.
\<close>

fun go_eq :: "gval \<Rightarrow> gval \<Rightarrow> bool option"
  and fields_eq :: "gval list \<Rightarrow> gval list \<Rightarrow> bool option"
  and iface_eq :: "error \<Rightarrow> error \<Rightarrow> bool option"
where
  "go_eq (VPrim _ a) (VPrim _ b) = Some (a = b)"
| "go_eq (VFloat _ a) (VFloat _ b) = Some (a \<noteq> None \<and> a = b)"
| "go_eq (VChain a) (VChain b) = Some (a = b)"
| "go_eq (VStruct _ fs) (VStruct _ gs) = fields_eq fs gs"
| "go_eq (VIface x) (VIface y) = iface_eq x y"
| "go_eq (VUncmp _ _) _ = None"
| "go_eq _ (VUncmp _ _) = None"
| "go_eq _ _ = Some False"
| "fields_eq (f # fs) (g # gs) =
     (case go_eq f g of
        None \<Rightarrow> None
      | Some False \<Rightarrow> Some False
      | Some True \<Rightarrow> fields_eq fs gs)"
| "fields_eq [] [] = Some True"
| "fields_eq _ _ = Some False"
| "iface_eq None None = Some True"
| "iface_eq (Some x) (Some y) =
     (if TypeOf x \<noteq> TypeOf y then Some False
      else if \<not> Comparable (TypeOf x) then None
      else go_eq x y)"
| "iface_eq _ _ = Some False"

section \<open>Chain nodes and the heap\<close>

text \<open>
  \<open>runpoint.PCounter\<close> belongs to another package: an opaque program counter whose zero
  value is \<open>0\<close>. Its methods \<open>File\<close> and \<open>Line\<close> are parameters of the functions that
  call them.
\<close>

type_synonym PCounter = nat

record errorChain =
  pc :: PCounter
  "text" :: string
  "next" :: error

text \<open>
  Nodes live in a heap; a pointer of type \<open>*errorChain\<close> is an index into it, and
  allocation appends. A pointer outside the heap stands for the nil pointer of that type:
  reading a field through it panics.
\<close>

type_synonym heap = "errorChain list"

datatype panic = NilDereference | UncomparableType

definition deref :: "heap \<Rightarrow> nat \<Rightarrow> errorChain option" where
  "deref h a = (if a < length h then Some (h ! a) else None)"

section \<open>The package\<close>

text \<open>The method \<open>Error\<close> of \<open>*errorChain\<close>, on the receiver's address.\<close>

definition Error :: "heap \<Rightarrow> nat \<Rightarrow> panic + string" where
  "Error h e = (case deref h e of None \<Rightarrow> Inl NilDereference | Some n \<Rightarrow> Inr (text n))"

text \<open>
  \<open>New\<close> allocates a node and returns the pointer to it as an \<open>error\<close>, with the heap
  after the allocation. \<open>cause\<close> is the variadic parameter, a list; \<open>callerpc\<close> is
  what \<open>runpoint.PC(1)\<close> returns at this call.
\<close>

definition New :: "heap \<Rightarrow> PCounter \<Rightarrow> string \<Rightarrow> error list \<Rightarrow> error \<times> heap" where
  "New h callerpc txt cause =
     (let e = (if length cause = 1 then cause ! 0 else None)
      in (Some (VChain (length h)), h @ [\<lparr>pc = callerpc, text = txt, next = e\<rparr>]))"

text \<open>
  The queries. Each takes the heap it reads; \<open>File\<close> and \<open>Line\<close> also take the method of
  \<open>runpoint.PCounter\<close> they call. The type assertion \<open>err.(*errorChain)\<close> succeeds
  exactly on \<open>Some (VChain a)\<close>.
\<close>

definition File :: "(PCounter \<Rightarrow> string) \<Rightarrow> heap \<Rightarrow> error \<Rightarrow> panic + string" where
  "File pcFile h err =
     (case err of
        None \<Rightarrow> Inr []
      | Some (VChain a) \<Rightarrow>
          (case deref h a of None \<Rightarrow> Inl NilDereference | Some e \<Rightarrow> Inr (pcFile (pc e)))
      | Some _ \<Rightarrow> Inr [])"

definition Line :: "(PCounter \<Rightarrow> int) \<Rightarrow> heap \<Rightarrow> error \<Rightarrow> panic + int" where
  "Line pcLine h err =
     (case err of
        None \<Rightarrow> Inr 0
      | Some (VChain a) \<Rightarrow>
          (case deref h a of None \<Rightarrow> Inl NilDereference | Some e \<Rightarrow> Inr (pcLine (pc e)))
      | Some _ \<Rightarrow> Inr 0)"

definition PC :: "heap \<Rightarrow> error \<Rightarrow> panic + PCounter" where
  "PC h err =
     (case err of
        None \<Rightarrow> Inr 0
      | Some (VChain a) \<Rightarrow>
          (case deref h a of None \<Rightarrow> Inl NilDereference | Some e \<Rightarrow> Inr (pc e))
      | Some _ \<Rightarrow> Inr 0)"

definition Cause :: "heap \<Rightarrow> error \<Rightarrow> panic + error" where
  "Cause h err =
     (case err of
        None \<Rightarrow> Inr None
      | Some (VChain a) \<Rightarrow>
          (case deref h a of None \<Rightarrow> Inl NilDereference | Some ec \<Rightarrow> Inr (next ec))
      | Some _ \<Rightarrow> Inr None)"

text \<open>
  \<open>ForCauses\<close>. The callback has no result, so what it does is a change of the caller's
  state \<open>'s\<close>. The loop \<open>for { ... }\<close> has no bound: \<open>None\<close> is a loop that never returns.
\<close>

partial_function (option) ForCauses_loop ::
  "heap \<Rightarrow> (error \<Rightarrow> 's \<Rightarrow> 's) \<Rightarrow> error \<Rightarrow> 's \<Rightarrow> (panic + 's) option"
where
  "ForCauses_loop h fn err s =
     (let s' = fn err s in
      case err of
        Some (VChain a) \<Rightarrow>
          (case deref h a of
             None \<Rightarrow> Some (Inl NilDereference)
           | Some e \<Rightarrow>
               if next e \<noteq> None then ForCauses_loop h fn (next e) s'
               else Some (Inr s'))
      | _ \<Rightarrow> Some (Inr s'))"

definition ForCauses ::
  "heap \<Rightarrow> error \<Rightarrow> (error \<Rightarrow> 's \<Rightarrow> 's) \<Rightarrow> 's \<Rightarrow> (panic + 's) option"
where
  "ForCauses h err fn s = (if err = None then Some (Inr s) else ForCauses_loop h fn err s)"

text \<open>
  \<open>OneCauseOf\<close>. \<open>isComparable && err == target\<close> evaluates the comparison only when
  \<open>isComparable\<close> holds.
\<close>

partial_function (option) OneCauseOf_loop ::
  "heap \<Rightarrow> bool \<Rightarrow> error \<Rightarrow> error \<Rightarrow> (panic + bool) option"
where
  "OneCauseOf_loop h isComparable target err =
     (case (if isComparable then iface_eq err target else Some False) of
        None \<Rightarrow> Some (Inl UncomparableType)
      | Some b \<Rightarrow>
          if b then Some (Inr True)
          else
            (case err of
               Some (VChain a) \<Rightarrow>
                 (case deref h a of
                    None \<Rightarrow> Some (Inl NilDereference)
                  | Some ec \<Rightarrow>
                      if next ec \<noteq> None then OneCauseOf_loop h isComparable target (next ec)
                      else Some (Inr False))
             | _ \<Rightarrow> Some (Inr False)))"

definition OneCauseOf :: "heap \<Rightarrow> error \<Rightarrow> error \<Rightarrow> (panic + bool) option" where
  "OneCauseOf h err target =
     (case target of
        None \<Rightarrow> (case iface_eq err target of
                   None \<Rightarrow> Some (Inl UncomparableType)
                 | Some b \<Rightarrow> Some (Inr b))
      | Some t \<Rightarrow> OneCauseOf_loop h (Comparable (TypeOf t)) target err)"

section \<open>Notions of the specification\<close>

text \<open>
  The chain walk in the words of the specification: the error itself is visited first;
  while the current error is a chain node with a non-nil cause the walk advances to that
  cause; it ends at an error that is not a chain node, or whose cause is nil, and that last
  error is visited too. \<open>chain_walk h err es\<close>: the walk from \<open>err\<close> visits exactly \<open>es\<close>,
  in this order. A chain node is a pointer of type \<open>*errorChain\<close> that is not nil; there is
  no walk through a nil one.
\<close>

inductive chain_walk :: "heap \<Rightarrow> error \<Rightarrow> error list \<Rightarrow> bool" for h where
  foreign: "\<forall>a. err \<noteq> Some (VChain a) \<Longrightarrow> chain_walk h err [err]"
| terminal: "deref h a = Some ec \<Longrightarrow> next ec = None
             \<Longrightarrow> chain_walk h (Some (VChain a)) [Some (VChain a)]"
| advance: "deref h a = Some ec \<Longrightarrow> next ec \<noteq> None \<Longrightarrow> chain_walk h (next ec) es
            \<Longrightarrow> chain_walk h (Some (VChain a)) (Some (VChain a) # es)"

text \<open>
  The walk reaches a nil pointer of type \<open>*errorChain\<close>: the error is such a pointer, or
  it is a chain node whose non-nil cause reaches one.
\<close>

inductive nil_reached :: "heap \<Rightarrow> error \<Rightarrow> bool" for h where
  here: "deref h a = None \<Longrightarrow> nil_reached h (Some (VChain a))"
| later: "deref h a = Some ec \<Longrightarrow> next ec \<noteq> None \<Longrightarrow> nil_reached h (next ec)
          \<Longrightarrow> nil_reached h (Some (VChain a))"

text \<open>
  The cause links between chain nodes: \<open>(a, b)\<close> when the node at \<open>a\<close> stores the pointer
  \<open>b\<close> as its cause. A heap is acyclic when no node reaches itself along these links,
  \<open>acyclic (cause_link h)\<close>.
\<close>

definition cause_link :: "heap \<Rightarrow> (nat \<times> nat) set" where
  "cause_link h = {(a, b). \<exists>ec. deref h a = Some ec \<and> next ec = Some (VChain b)}"

text \<open>
  What construction gives: a cause exists before the node that stores it, so every stored
  chain pointer is an older address.
\<close>

definition allocated :: "heap \<Rightarrow> error \<Rightarrow> bool" where
  "allocated h e = (case e of Some (VChain b) \<Rightarrow> b < length h | _ \<Rightarrow> True)"

definition causes_older :: "heap \<Rightarrow> bool" where
  "causes_older h = (\<forall>a < length h. \<forall>b. next (h ! a) = Some (VChain b) \<longrightarrow> b < a)"

text \<open>
  A value that \<open>==\<close> can compare without a run-time panic, whatever it is compared with:
  no slice, map or function at any depth, also not inside the dynamic value of an
  interface field.
\<close>

fun deep_comparable :: "gval \<Rightarrow> bool" where
  "deep_comparable (VPrim _ _) = True"
| "deep_comparable (VFloat _ _) = True"
| "deep_comparable (VUncmp _ _) = False"
| "deep_comparable (VStruct _ fs) = list_all deep_comparable fs"
| "deep_comparable (VIface None) = True"
| "deep_comparable (VIface (Some x)) = deep_comparable x"
| "deep_comparable (VChain _) = True"

text \<open>
  A foreign error of the type \<open>type E struct { v interface{} }\<close> (with a method \<open>Error\<close>)
  whose field holds a slice, as in \<open>E{v: []int{}}\<close>; and an ordinary foreign error, a
  pointer to a struct as \<open>errors.New\<close> of the standard library returns.
\<close>

definition boxed_slice :: gval where
  "boxed_slice = VStruct ''E'' [VIface (Some (VUncmp ''[]int'' 0))]"

definition std_error :: gval where
  "std_error = VPrim ''*errors.errorString'' 4096"

text \<open>
  Two heaps built by the constructor alone, from the empty heap: the one after
  \<open>e1 := New("a"); e2 := New("b", e1); e3 := New("c", e2)\<close>, where the three errors are
  the pointers \<open>0\<close>, \<open>1\<close> and \<open>2\<close>, and the one after \<open>New("wrapped", v)\<close> for a foreign
  error \<open>v\<close>.
\<close>

definition heap3 :: heap where
  "heap3 = snd (New (snd (New (snd (New [] 1 ''a'' [])) 2 ''b'' [Some (VChain 0)])) 3 ''c''
                  [Some (VChain 1)])"

definition heap_wrapping :: "gval \<Rightarrow> heap" where
  "heap_wrapping v = snd (New [] 1 ''wrapped'' [Some v])"

section \<open>Comparison\<close>

lemma deep_comparable_Comparable: "deep_comparable v \<Longrightarrow> Comparable (TypeOf v)"
  by (induction v rule: deep_comparable.induct) (auto simp: list_all_iff)

lemma deep_comparable_not_Uncmp: "deep_comparable v \<Longrightarrow> TUncmp n \<noteq> TypeOf v"
  by (cases v) auto

lemma deep_comparable_VIface:
  "deep_comparable (VIface y) \<longleftrightarrow> (\<forall>t. y = Some t \<longrightarrow> deep_comparable t)"
  by (cases y) auto

text \<open>Against a value that is comparable at every depth, \<open>==\<close> never panics.\<close>

lemma eq_deep_comparable:
  "deep_comparable y \<Longrightarrow> TypeOf x = TypeOf y \<Longrightarrow> go_eq x y \<noteq> None"
  "list_all deep_comparable gs \<Longrightarrow> map TypeOf fs = map TypeOf gs
     \<Longrightarrow> fields_eq fs gs \<noteq> None"
  "(\<And>t. v = Some t \<Longrightarrow> deep_comparable t) \<Longrightarrow> iface_eq u v \<noteq> None"
  by (induction x y and fs gs and u v rule: go_eq_fields_eq_iface_eq.induct)
     (auto split: option.splits bool.splits simp: deep_comparable_VIface
           dest: deep_comparable_Comparable deep_comparable_not_Uncmp)

lemma iface_eq_deep: "deep_comparable t \<Longrightarrow> iface_eq e (Some t) \<noteq> None"
  by (rule eq_deep_comparable(3)) simp

lemma iface_eq_nil: "iface_eq e None = Some (e = None)"
  by (cases e) auto

section \<open>The walk, \<open>ForCauses\<close> and \<open>OneCauseOf\<close>\<close>

lemma chain_walk_first: "chain_walk h err es \<Longrightarrow> \<exists>es'. es = err # es'"
  by (induction rule: chain_walk.induct) auto

lemma chain_walk_unique: "chain_walk h err es \<Longrightarrow> chain_walk h err es' \<Longrightarrow> es = es'"
proof (induction arbitrary: es' rule: chain_walk.induct)
  case (foreign err)
  from foreign(2) foreign(1) show ?case by cases auto
next
  case (terminal a ec)
  from terminal(3) terminal(1,2) show ?case by cases auto
next
  case (advance a ec es)
  from advance(5) advance(1,2,4) show ?case by cases auto
qed

lemma ForCauses_loop_walk:
  "chain_walk h err es \<Longrightarrow> ForCauses_loop h fn err s = Some (Inr (fold fn es s))"
proof (induction arbitrary: s rule: chain_walk.induct)
  case (foreign err)
  then show ?case
    by (subst ForCauses_loop.simps) (auto simp: Let_def split: option.splits gval.splits)
next
  case (terminal a ec)
  then show ?case by (subst ForCauses_loop.simps) simp
next
  case (advance a ec es)
  then show ?case by (subst ForCauses_loop.simps) simp
qed

text \<open>
  With the guard on, and as long as no comparison panics, the loop answers whether some
  visited error compares equal to the target.
\<close>

lemma OneCauseOf_loop_scan:
  assumes "chain_walk h err es" and "\<forall>e \<in> set es. iface_eq e target \<noteq> None"
  shows "OneCauseOf_loop h True target err
           = Some (Inr (\<exists>e \<in> set es. iface_eq e target = Some True))"
  using assms
proof (induction rule: chain_walk.induct)
  case (foreign err)
  then show ?case
    by (subst OneCauseOf_loop.simps)
       (auto simp del: iface_eq.simps split: option.splits gval.splits)
next
  case (terminal a ec)
  then show ?case
    by (subst OneCauseOf_loop.simps) (auto simp del: iface_eq.simps split: option.splits)
next
  case (advance a ec es)
  then show ?case
    by (subst OneCauseOf_loop.simps) (auto simp del: iface_eq.simps split: option.splits)
qed

text \<open>With the guard off no comparison is made, and the loop answers false at the end.\<close>

lemma OneCauseOf_loop_unguarded:
  "chain_walk h err es \<Longrightarrow> OneCauseOf_loop h False target err = Some (Inr False)"
proof (induction rule: chain_walk.induct)
  case (foreign err)
  then show ?case
    by (subst OneCauseOf_loop.simps) (auto split: option.splits gval.splits)
next
  case (terminal a ec)
  then show ?case by (subst OneCauseOf_loop.simps) simp
next
  case (advance a ec es)
  then show ?case by (subst OneCauseOf_loop.simps) simp
qed

lemma OneCauseOf_not_Comparable:
  "\<not> Comparable (TypeOf t) \<Longrightarrow> chain_walk h err es
     \<Longrightarrow> OneCauseOf h err (Some t) = Some (Inr False)"
  by (simp add: OneCauseOf_def OneCauseOf_loop_unguarded)

section \<open>Termination on acyclic heaps\<close>

lemma finite_cause_link: "finite (cause_link h)"
proof -
  have "cause_link h \<subseteq>
      (\<lambda>a. (a, case next (h ! a) of Some (VChain b) \<Rightarrow> b | _ \<Rightarrow> 0)) ` {..<length h}"
    by (auto simp: cause_link_def deref_def image_iff split: if_splits)
  then show ?thesis by (rule finite_subset) simp
qed

lemma wf_cause_link: "acyclic (cause_link h) \<Longrightarrow> wf ((cause_link h)\<inverse>)"
  using finite_cause_link by (rule finite_acyclic_wf_converse)

lemma ForCauses_loop_foreign:
  "\<forall>a. err \<noteq> Some (VChain a) \<Longrightarrow> ForCauses_loop h fn err s = Some (Inr (fn err s))"
  by (subst ForCauses_loop.simps) (auto simp: Let_def split: option.splits gval.splits)

lemma ForCauses_loop_terminates:
  assumes "acyclic (cause_link h)"
  shows "ForCauses_loop h fn err s \<noteq> None"
proof -
  have chain: "ForCauses_loop h fn (Some (VChain a)) s \<noteq> None" for a s
  proof (induction a arbitrary: s rule: wf_induct_rule [OF wf_cause_link [OF assms]])
    case (1 a)
    show ?case
    proof (cases "deref h a")
      case None
      then show ?thesis by (subst ForCauses_loop.simps) simp
    next
      case (Some ec)
      note ec = this
      show ?thesis
      proof (cases "next ec")
        case None
        with ec show ?thesis by (subst ForCauses_loop.simps) simp
      next
        case (Some v)
        note nx = this
        show ?thesis
        proof (cases "\<exists>b. v = VChain b")
          case True
          then obtain b where b: "v = VChain b" by blast
          from ec nx b have "(b, a) \<in> (cause_link h)\<inverse>" by (auto simp: cause_link_def)
          from 1 [OF this]
          have "ForCauses_loop h fn (Some (VChain b)) (fn (Some (VChain a)) s) \<noteq> None" .
          with ec nx b show ?thesis by (subst ForCauses_loop.simps) simp
        next
          case False
          then have "ForCauses_loop h fn (Some v) (fn (Some (VChain a)) s) \<noteq> None"
            by (simp add: ForCauses_loop_foreign)
          with ec nx show ?thesis by (subst ForCauses_loop.simps) simp
        qed
      qed
    qed
  qed
  show ?thesis
  proof (cases "\<exists>a. err = Some (VChain a)")
    case True
    then show ?thesis using chain by auto
  next
    case False
    then show ?thesis by (simp add: ForCauses_loop_foreign)
  qed
qed

lemma OneCauseOf_loop_foreign:
  "\<forall>a. err \<noteq> Some (VChain a) \<Longrightarrow> OneCauseOf_loop h c target err \<noteq> None"
  by (subst OneCauseOf_loop.simps) (auto split: option.splits gval.splits)

lemma OneCauseOf_loop_terminates:
  assumes "acyclic (cause_link h)"
  shows "OneCauseOf_loop h c target err \<noteq> None"
proof -
  have chain: "OneCauseOf_loop h c target (Some (VChain a)) \<noteq> None" for a
  proof (induction a rule: wf_induct_rule [OF wf_cause_link [OF assms]])
    case (1 a)
    show ?case
    proof (cases "deref h a")
      case None
      then show ?thesis
        by (subst OneCauseOf_loop.simps) (simp split: option.splits)
    next
      case (Some ec)
      note ec = this
      show ?thesis
      proof (cases "next ec")
        case None
        with ec show ?thesis
          by (subst OneCauseOf_loop.simps) (simp split: option.splits)
      next
        case (Some v)
        note nx = this
        have "OneCauseOf_loop h c target (Some v) \<noteq> None"
        proof (cases "\<exists>b. v = VChain b")
          case True
          then obtain b where b: "v = VChain b" by blast
          from ec nx b have "(b, a) \<in> (cause_link h)\<inverse>" by (auto simp: cause_link_def)
          from 1 [OF this] b show ?thesis by simp
        next
          case False
          then show ?thesis by (simp add: OneCauseOf_loop_foreign)
        qed
        with ec nx show ?thesis
          by (subst OneCauseOf_loop.simps) (cases c; auto split: option.splits)
      qed
    qed
  qed
  show ?thesis
  proof (cases "\<exists>a. err = Some (VChain a)")
    case True
    then show ?thesis using chain by auto
  next
    case False
    then show ?thesis by (simp add: OneCauseOf_loop_foreign)
  qed
qed

section \<open>Heaps built by the constructor\<close>

text \<open>
  The constructor keeps every cause older than the node that stores it, provided the
  causes it is given exist; on such a heap the walk from every existing error ends.
\<close>

text \<open>
  The pointer the constructor returns is not nil, and no later allocation changes what a
  pointer that is not nil points to.
\<close>

lemma New_result_allocated:
  "fst (New h p t c) = Some (VChain (length h))
   \<and> deref (snd (New h p t c)) (length h) \<noteq> None"
  by (simp add: New_def deref_def)

lemma New_keeps_allocated:
  "deref h a \<noteq> None \<Longrightarrow> deref (snd (New h p t c)) a = deref h a"
  by (auto simp: New_def deref_def nth_append split: if_splits)

lemma causes_older_Nil: "causes_older []"
  by (simp add: causes_older_def)

lemma causes_older_New:
  assumes "causes_older h" and "list_all (allocated h) cause"
  shows "causes_older (snd (New h p t cause))"
proof (cases "length cause = 1")
  case True
  then obtain c where c: "cause = [c]" by (auto simp: length_Suc_conv)
  with assms show ?thesis
    by (auto simp: causes_older_def New_def nth_append less_Suc_eq allocated_def)
next
  case False
  with assms show ?thesis
    by (auto simp: causes_older_def New_def nth_append less_Suc_eq allocated_def)
qed

lemma chain_walk_exists:
  assumes co: "causes_older h" and al: "allocated h err"
  shows "\<exists>es. chain_walk h err es"
proof -
  have node: "a < length h \<Longrightarrow> \<exists>es. chain_walk h (Some (VChain a)) es" for a
  proof (induction a rule: less_induct)
    case (less a)
    then have d: "deref h a = Some (h ! a)" by (simp add: deref_def)
    show ?case
    proof (cases "next (h ! a)")
      case None
      with d show ?thesis by (blast intro: chain_walk.terminal)
    next
      case (Some v)
      have "\<exists>es. chain_walk h (Some v) es"
      proof (cases "\<exists>b. v = VChain b")
        case True
        then obtain b where b: "v = VChain b" by blast
        with co Some less.prems have "b < a" by (simp add: causes_older_def)
        with less b show ?thesis by simp
      next
        case False
        then show ?thesis by (blast intro: chain_walk.foreign)
      qed
      then obtain es where "chain_walk h (next (h ! a)) es" using Some by auto
      with d Some show ?thesis by (blast intro: chain_walk.advance)
    qed
  qed
  show ?thesis
  proof (cases "\<exists>a. err = Some (VChain a)")
    case True
    then obtain a where "err = Some (VChain a)" by blast
    with al node show ?thesis by (simp add: allocated_def)
  next
    case False
    then show ?thesis by (blast intro: chain_walk.foreign)
  qed
qed

lemma causes_older_acyclic: "causes_older h \<Longrightarrow> acyclic (cause_link h)"
proof -
  assume co: "causes_older h"
  have "cause_link h \<subseteq> less_than\<inverse>"
    using co
    by (auto simp: cause_link_def causes_older_def deref_def split: if_splits)
  moreover have "acyclic (less_than\<inverse>)"
    by (simp add: wf_acyclic)
  ultimately show ?thesis by (rule acyclic_subset [rotated])
qed

lemma heap3_nodes:
  "heap3 = [\<lparr>pc = 1, text = ''a'', next = None\<rparr>,
            \<lparr>pc = 2, text = ''b'', next = Some (VChain 0)\<rparr>,
            \<lparr>pc = 3, text = ''c'', next = Some (VChain 1)\<rparr>]"
  by (simp add: heap3_def New_def)

lemma causes_older_heap3: "causes_older heap3"
  by (simp add: causes_older_def heap3_nodes less_Suc_eq)

lemma chain_walk_wrapping:
  "\<forall>a. v \<noteq> VChain a
     \<Longrightarrow> chain_walk (heap_wrapping v) (Some (VChain 0)) [Some (VChain 0), Some v]"
  by (rule chain_walk.advance [where ec = "heap_wrapping v ! 0"] chain_walk.foreign
      | simp add: heap_wrapping_def New_def deref_def)+

text \<open>
  The walk over three nodes allocated one after the other on any heap \<open>h\<close>, each storing
  the one before as its cause; more nodes may have been allocated since.
\<close>

lemma chain_walk_three:
  "chain_walk
     (h @ [\<lparr>pc = p1, text = t1, next = None\<rparr>,
           \<lparr>pc = p2, text = t2, next = Some (VChain (length h))\<rparr>,
           \<lparr>pc = p3, text = t3, next = Some (VChain (Suc (length h)))\<rparr>] @ hs)
     (Some (VChain (Suc (Suc (length h)))))
     [Some (VChain (Suc (Suc (length h)))), Some (VChain (Suc (length h))),
      Some (VChain (length h))]"
  by (rule chain_walk.advance
             [where ec = "\<lparr>pc = p3, text = t3, next = Some (VChain (Suc (length h)))\<rparr>"]
           chain_walk.advance
             [where ec = "\<lparr>pc = p2, text = t2, next = Some (VChain (length h))\<rparr>"]
           chain_walk.terminal [where ec = "\<lparr>pc = p1, text = t1, next = None\<rparr>"]
      | simp add: deref_def nth_append)+

section \<open>What \<open>ForCauses\<close> has visited when it returns\<close>

lemma ForCauses_loop_returns_aux:
  "ForCauses_loop h fn err s = Some r
     \<Longrightarrow> \<forall>s'. r = Inr s' \<longrightarrow> (\<exists>es. chain_walk h err es \<and> s' = fold fn es s)"
proof (induct rule: ForCauses_loop.raw_induct [rotated, consumes 1])
  case (1 loop h fn err s r)
  note IH = 1(1) and body = 1(2)
  show ?case
  proof (intro allI impI)
    fix s' assume r: "r = Inr s'"
    show "\<exists>es. chain_walk h err es \<and> s' = fold fn es s"
    proof (cases "\<exists>a. err = Some (VChain a)")
      case False
      with body r have "s' = fn err s"
        by (auto simp: Let_def split: option.splits gval.splits)
      moreover from False have "chain_walk h err [err]"
        by (intro chain_walk.foreign) simp
      ultimately have "chain_walk h err [err] \<and> s' = fold fn [err] s" by simp
      then show ?thesis by (rule exI)
    next
      case True
      then obtain a where a: "err = Some (VChain a)" by blast
      show ?thesis
      proof (cases "deref h a")
        case None
        with body r a show ?thesis by (simp add: Let_def)
      next
        case (Some ec)
        show ?thesis
        proof (cases "next ec = None")
          case True
          with body r a Some have "s' = fn err s" by (simp add: Let_def)
          moreover from Some True have "chain_walk h (Some (VChain a)) [Some (VChain a)]"
            by (rule chain_walk.terminal)
          ultimately have "chain_walk h err [err] \<and> s' = fold fn [err] s" using a by simp
          then show ?thesis by (rule exI)
        next
          case False
          with body a Some have "loop h fn (next ec) (fn err s) = Some r"
            by (simp add: Let_def)
          from IH [OF this] r obtain es
            where w: "chain_walk h (next ec) es" and f: "s' = fold fn es (fn err s)" by blast
          from Some False w have "chain_walk h (Some (VChain a)) (Some (VChain a) # es)"
            by (rule chain_walk.advance)
          with a f have "chain_walk h err (err # es) \<and> s' = fold fn (err # es) s" by simp
          then show ?thesis by (rule exI)
        qed
      qed
    qed
  qed
qed

lemma ForCauses_loop_returns:
  "ForCauses_loop h fn err s = Some (Inr s')
     \<Longrightarrow> \<exists>es. chain_walk h err es \<and> s' = fold fn es s"
  using ForCauses_loop_returns_aux [of h fn err s "Inr s'"] by simp

lemma chain_walk_acyclic:
  assumes ac: "acyclic (cause_link h)" and nn: "\<not> nil_reached h err"
  shows "\<exists>es. chain_walk h err es"
proof -
  have node: "\<not> nil_reached h (Some (VChain a)) \<Longrightarrow> \<exists>es. chain_walk h (Some (VChain a)) es"
    for a
  proof (induction a rule: wf_induct_rule [OF wf_cause_link [OF ac]])
    case (1 a)
    from 1(2) obtain ec where ec: "deref h a = Some ec"
      by (cases "deref h a") (auto intro: nil_reached.here)
    show ?case
    proof (cases "next ec")
      case None
      with ec show ?thesis by (blast intro: chain_walk.terminal)
    next
      case (Some v)
      with ec 1(2) have nv: "\<not> nil_reached h (Some v)"
        by (auto intro: nil_reached.later)
      have "\<exists>es. chain_walk h (Some v) es"
      proof (cases "\<exists>b. v = VChain b")
        case True
        then obtain b where b: "v = VChain b" by blast
        from ec Some b have "(b, a) \<in> (cause_link h)\<inverse>" by (auto simp: cause_link_def)
        from 1(1) [OF this] nv b show ?thesis by simp
      next
        case False
        then show ?thesis by (blast intro: chain_walk.foreign)
      qed
      then obtain es where "chain_walk h (next ec) es" using Some by auto
      with ec Some show ?thesis by (blast intro: chain_walk.advance)
    qed
  qed
  show ?thesis
  proof (cases "\<exists>a. err = Some (VChain a)")
    case True
    with nn node show ?thesis by auto
  next
    case False
    then show ?thesis by (blast intro: chain_walk.foreign)
  qed
qed

lemma chain_walk_not_nil_reached: "chain_walk h err es \<Longrightarrow> \<not> nil_reached h err"
proof (induction rule: chain_walk.induct)
  case (foreign err)
  then show ?case by (auto elim: nil_reached.cases)
next
  case (terminal a ec)
  then show ?case by (auto elim: nil_reached.cases)
next
  case (advance a ec es)
  then show ?case by (auto elim: nil_reached.cases)
qed

lemma chain_walk_heap3:
  "chain_walk heap3 (Some (VChain 2)) [Some (VChain 2), Some (VChain 1), Some (VChain 0)]"
  by (rule chain_walk.advance [where ec = "heap3 ! 2"] chain_walk.terminal [where ec = "heap3 ! 0"]
           chain_walk.advance [where ec = "heap3 ! 1"]
      | simp add: heap3_nodes deref_def)+

section \<open>\<open>OneCauseOf\<close> where no comparison panics\<close>

text \<open>
  Let the chain walk of \<open>err\<close> visit \<open>es\<close>, and let the dynamic type of the target be
  comparable. If no comparison of a visited error with the target panics, \<open>OneCauseOf\<close>
  returns whether some visited error compares equal to the target. That is so for every
  target that is comparable at every depth.
\<close>

lemma OneCauseOf_scan:
  assumes "chain_walk h err es" and "Comparable (TypeOf t)"
    and "\<forall>e \<in> set es. iface_eq e (Some t) \<noteq> None"
  shows "OneCauseOf h err (Some t)
           = Some (Inr (\<exists>e \<in> set es. iface_eq e (Some t) = Some True))"
  using assms by (simp add: OneCauseOf_def OneCauseOf_loop_scan del: iface_eq.simps)

lemma OneCauseOf_deep_comparable:
  assumes "chain_walk h err es" and "deep_comparable t"
  shows "OneCauseOf h err (Some t)
           = Some (Inr (\<exists>e \<in> set es. iface_eq e (Some t) = Some True))"
proof (rule OneCauseOf_scan)
  show "chain_walk h err es" by (rule assms(1))
  show "Comparable (TypeOf t)" using assms(2) by (rule deep_comparable_Comparable)
  show "\<forall>e \<in> set es. iface_eq e (Some t) \<noteq> None"
    using iface_eq_deep [OF assms(2)] by blast
qed

text \<open>
  With \<open>e1 = New("a")\<close>, \<open>e2 = New("b", e1)\<close>, \<open>e3 = New("c", e2)\<close>, on any heap:
  \<open>OneCauseOf(e3, e1)\<close> is true and \<open>OneCauseOf(e3, New("a"))\<close> is false.
\<close>

lemma OneCauseOf_three:
  "case New h p1 ''a'' [] of (e1, h1) \<Rightarrow>
   case New h1 p2 ''b'' [e1] of (e2, h2) \<Rightarrow>
   case New h2 p3 ''c'' [e2] of (e3, h3) \<Rightarrow>
     OneCauseOf h3 e3 e1 = Some (Inr True) \<and>
     (case New h3 p4 ''a'' [] of (e4, h4) \<Rightarrow> OneCauseOf h4 e3 e4 = Some (Inr False))"
proof -
  let ?n1 = "\<lparr>pc = p1, text = ''a'', next = None\<rparr>"
  let ?n2 = "\<lparr>pc = p2, text = ''b'', next = Some (VChain (length h))\<rparr>"
  let ?n3 = "\<lparr>pc = p3, text = ''c'', next = Some (VChain (Suc (length h)))\<rparr>"
  let ?n4 = "\<lparr>pc = p4, text = ''a'', next = None\<rparr>"
  let ?e1 = "Some (VChain (length h))"
  let ?e3 = "Some (VChain (Suc (Suc (length h))))"
  have "OneCauseOf (h @ [?n1, ?n2, ?n3] @ []) ?e3 ?e1 = Some (Inr True)"
    by (subst OneCauseOf_scan [OF chain_walk_three]) auto
  moreover
  have "OneCauseOf (h @ [?n1, ?n2, ?n3] @ [?n4]) ?e3 (Some (VChain (Suc (Suc (Suc (length h))))))
      = Some (Inr False)"
    by (subst OneCauseOf_scan [OF chain_walk_three]) auto
  ultimately show ?thesis by (simp add: New_def)
qed

section \<open>The claims\<close>

text \<open>
  C1 says that for a target whose dynamic type is comparable \<open>OneCauseOf\<close> returns whether
  the target equals a visited error. The code does not return on this input: the target
  \<open>E{v: []int{}}\<close> has a comparable dynamic type, a struct with one field of interface
  type; \<open>err = New("wrapped", target)\<close> stores it as its cause, so the walk visits
  \<open>err\<close> and then the target; the guard lets the comparison of the target with itself
  through, and it panics.
\<close>

theorem OneCauseOf_wrapped_boxed_slice_panics:
  "Comparable (TypeOf boxed_slice)
   \<and> New [] 1 ''wrapped'' [Some boxed_slice] = (Some (VChain 0), heap_wrapping boxed_slice)
   \<and> Cause (heap_wrapping boxed_slice) (Some (VChain 0)) = Inr (Some boxed_slice)
   \<and> OneCauseOf (heap_wrapping boxed_slice) (Some (VChain 0)) (Some boxed_slice)
       = Some (Inl UncomparableType)"
  by (simp add: OneCauseOf_def OneCauseOf_loop.simps boxed_slice_def heap_wrapping_def New_def
        Cause_def deref_def)

text \<open>
  C2. \<open>Cause(New(t, c))\<close> is the very value \<open>c\<close> passed to the constructor, whatever it is
  (nil, a chain node or a foreign error), and \<open>Cause(New(t))\<close> is nil.
\<close>

theorem Cause_New_roundtrip:
  "Cause (snd (New h p t [c])) (fst (New h p t [c])) = Inr c
   \<and> Cause (snd (New h p t [])) (fst (New h p t [])) = Inr None"
  by (simp add: New_def Cause_def deref_def)

text \<open>
  C3, as amended: for errors whose walk reaches no nil pointer of type \<open>*errorChain\<close>.
  On nil \<open>ForCauses\<close> calls the callback zero times. On a non-nil error whose chain walk
  visits \<open>es\<close> it calls the callback on the errors \<open>es\<close>, in this order (the error itself
  first, then each cause in turn, the last one included) and returns; whenever it returns,
  these are the calls it has made. The chain walk exists on every acyclic heap, from every
  error that reaches no nil pointer of type \<open>*errorChain\<close>. For \<open>e1 = New("a")\<close>,
  \<open>e2 = New("b", e1)\<close>, \<open>e3 = New("c", e2)\<close> the calls are on \<open>e3\<close>, \<open>e2\<close>, \<open>e1\<close>, three in
  all.
\<close>

theorem ForCauses_visits:
  "ForCauses h None fn s = Some (Inr s)
   \<and> (err \<noteq> None \<and> chain_walk h err es \<longrightarrow> ForCauses h err fn s = Some (Inr (fold fn es s)))
   \<and> (err \<noteq> None \<and> ForCauses h err fn s = Some (Inr s') \<longrightarrow>
        (\<exists>es. chain_walk h err es \<and> s' = fold fn es s))
   \<and> (acyclic (cause_link h) \<and> \<not> nil_reached h err \<longrightarrow> (\<exists>es. chain_walk h err es))
   \<and> (case New h p1 ''a'' [] of (e1, h1) \<Rightarrow>
       case New h1 p2 ''b'' [e1] of (e2, h2) \<Rightarrow>
       case New h2 p3 ''c'' [e2] of (e3, h3) \<Rightarrow>
         ForCauses h3 e3 (\<lambda>e vs. vs @ [e]) [] = Some (Inr [e3, e2, e1]))"
proof (intro conjI impI)
  show "ForCauses h None fn s = Some (Inr s)" by (simp add: ForCauses_def)
next
  assume "err \<noteq> None \<and> chain_walk h err es"
  then show "ForCauses h err fn s = Some (Inr (fold fn es s))"
    by (auto simp: ForCauses_def ForCauses_loop_walk)
next
  assume "err \<noteq> None \<and> ForCauses h err fn s = Some (Inr s')"
  then have "ForCauses_loop h fn err s = Some (Inr s')" by (auto simp: ForCauses_def)
  then show "\<exists>es. chain_walk h err es \<and> s' = fold fn es s"
    by (rule ForCauses_loop_returns)
next
  assume "acyclic (cause_link h) \<and> \<not> nil_reached h err"
  then show "\<exists>es. chain_walk h err es" by (simp add: chain_walk_acyclic)
next
  let ?n1 = "\<lparr>pc = p1, text = ''a'', next = None\<rparr>"
  let ?n2 = "\<lparr>pc = p2, text = ''b'', next = Some (VChain (length h))\<rparr>"
  let ?n3 = "\<lparr>pc = p3, text = ''c'', next = Some (VChain (Suc (length h)))\<rparr>"
  let ?e1 = "Some (VChain (length h))"
  let ?e2 = "Some (VChain (Suc (length h)))"
  let ?e3 = "Some (VChain (Suc (Suc (length h))))"
  have "ForCauses (h @ [?n1, ?n2, ?n3] @ []) ?e3 (\<lambda>e vs. vs @ [e]) []
      = Some (Inr [?e3, ?e2, ?e1])"
    by (simp only: ForCauses_def option.simps if_False)
       (subst ForCauses_loop_walk [OF chain_walk_three], simp)
  then show "case New h p1 ''a'' [] of (e1, h1) \<Rightarrow>
       case New h1 p2 ''b'' [e1] of (e2, h2) \<Rightarrow>
       case New h2 p3 ''c'' [e2] of (e3, h3) \<Rightarrow>
         ForCauses h3 e3 (\<lambda>e vs. vs @ [e]) [] = Some (Inr [e3, e2, e1])"
    by (simp add: New_def)
qed

theorem ForCauses_visits_witness:
  "Some (VChain 2) \<noteq> None
   \<and> acyclic (cause_link heap3)
   \<and> \<not> nil_reached heap3 (Some (VChain 2))
   \<and> chain_walk heap3 (Some (VChain 2)) [Some (VChain 2), Some (VChain 1), Some (VChain 0)]
   \<and> ForCauses heap3 (Some (VChain 2)) (\<lambda>e vs. vs @ [e]) []
       = Some (Inr [Some (VChain 2), Some (VChain 1), Some (VChain 0)])"
proof -
  let ?es = "[Some (VChain 2), Some (VChain 1), Some (VChain 0)]"
  have a: "acyclic (cause_link heap3)"
    using causes_older_heap3 by (rule causes_older_acyclic)
  have n: "\<not> nil_reached heap3 (Some (VChain 2))"
    using chain_walk_heap3 by (rule chain_walk_not_nil_reached)
  from ForCauses_visits [of heap3 "\<lambda>e vs. vs @ [e]" "[]" "Some (VChain 2)"] a n
  obtain es where es: "chain_walk heap3 (Some (VChain 2)) es" by blast
  from ForCauses_visits [of heap3 "\<lambda>e vs. vs @ [e]" "[]" "Some (VChain 2)" es] es
  have r: "ForCauses heap3 (Some (VChain 2)) (\<lambda>e vs. vs @ [e]) []
      = Some (Inr (fold (\<lambda>e vs. vs @ [e]) es []))"
    by simp
  from es chain_walk_heap3 have "es = ?es" by (rule chain_walk_unique)
  with es r a n show ?thesis by simp
qed

text \<open>
  C3 as stated fails on a nil pointer of type \<open>*errorChain\<close>, which is a non-nil error:
  the callback is called on it and then, instead of stopping, the call panics on reading the
  cause. In the empty heap every pointer is nil.
\<close>

theorem ForCauses_visits_counterexample:
  "Some (VChain 0) \<noteq> None
   \<and> deref [] 0 = None
   \<and> ForCauses [] (Some (VChain 0)) (\<lambda>e vs. vs @ [e]) [] = Some (Inl NilDereference)"
  by (simp add: ForCauses_def ForCauses_loop.simps deref_def)

text \<open>
  C4 says that \<open>OneCauseOf\<close> never panics. The guard of the code asks whether the dynamic
  type of the target is comparable, which a struct type with a field of interface type is;
  comparing two values of that type still panics when the field holds a slice on both
  sides. So \<open>OneCauseOf(x, x)\<close> panics for \<open>x = E{v: []int{}}\<close>.
\<close>

theorem OneCauseOf_boxed_slice_panics:
  "Comparable (TypeOf boxed_slice)
   \<and> OneCauseOf [] (Some boxed_slice) (Some boxed_slice) = Some (Inl UncomparableType)"
  by (simp add: OneCauseOf_def OneCauseOf_loop.simps boxed_slice_def)

text \<open>
  C5. With a nil target \<open>OneCauseOf\<close> returns \<open>err == target\<close>: true exactly when \<open>err\<close> is
  nil too.
\<close>

theorem OneCauseOf_nil_target:
  "OneCauseOf h err None = Some (Inr (err = None))"
  by (simp add: OneCauseOf_def iface_eq_nil del: iface_eq.simps)

text \<open>
  C6, as amended: on nil and on every error whose dynamic type is not \<open>*errorChain\<close> the
  queries return their zero result: \<open>File\<close> the empty string, \<open>Line\<close> zero, \<open>PC\<close> the zero
  handle, \<open>Cause\<close> nil.
\<close>

theorem queries_zero_on_foreign:
  "err = None \<or> (\<forall>a. err \<noteq> Some (VChain a)) \<Longrightarrow>
     File pcFile h err = Inr [] \<and> Line pcLine h err = Inr 0 \<and> PC h err = Inr 0
     \<and> Cause h err = Inr None"
  by (auto simp: File_def Line_def PC_def Cause_def split: option.splits gval.splits)

theorem queries_zero_on_foreign_witness:
  "(Some std_error = None \<or> (\<forall>a. Some std_error \<noteq> Some (VChain a)))
   \<and> File (\<lambda>p. ''errors.go'') heap3 (Some std_error) = Inr []
   \<and> Line (\<lambda>p. 42) heap3 (Some std_error) = Inr 0
   \<and> PC heap3 (Some std_error) = Inr 0
   \<and> Cause heap3 (Some std_error) = Inr None
   \<and> File (\<lambda>p. ''errors.go'') heap3 None = Inr []
   \<and> Line (\<lambda>p. 42) heap3 None = Inr 0
   \<and> PC heap3 None = Inr 0
   \<and> Cause heap3 None = Inr None"
proof -
  have f: "Some std_error = None \<or> (\<forall>a. Some std_error \<noteq> Some (VChain a))"
    by (simp add: std_error_def)
  from queries_zero_on_foreign [OF f, of "\<lambda>p. ''errors.go''" heap3 "\<lambda>p. 42"]
       queries_zero_on_foreign [of None "\<lambda>p. ''errors.go''" heap3 "\<lambda>p. 42"] f
  show ?thesis by simp
qed

text \<open>
  C6 as stated fails on a nil pointer of type \<open>*errorChain\<close>. The constructor never returns
  it (what it returns is the address of the node it has just allocated), so it is an error
  the constructor did not produce; the type assertion of each query succeeds on it, and
  reading the field through it panics. In the empty heap every pointer is nil.
\<close>

theorem queries_nil_pointer_counterexample:
  "Some (VChain 0) \<noteq> None
   \<and> deref [] 0 = None
   \<and> File (\<lambda>p. ''errors.go'') [] (Some (VChain 0)) = Inl NilDereference
   \<and> Line (\<lambda>p. 42) [] (Some (VChain 0)) = Inl NilDereference
   \<and> PC [] (Some (VChain 0)) = Inl NilDereference
   \<and> Cause [] (Some (VChain 0)) = Inl NilDereference"
  by (simp add: File_def Line_def PC_def Cause_def deref_def)

text \<open>
  C7. Two calls of the constructor return distinct errors, also with the same text, the
  same causes and from the same call site: the error of a call differs from the error of
  every later call, and \<open>==\<close> on the two is false. A later call runs on a heap at least as
  long as the one the earlier call left.
\<close>

theorem New_distinct:
  "length (snd (New h p t c)) \<le> length h' \<Longrightarrow>
     fst (New h p t c) \<noteq> fst (New h' p' t c')
     \<and> iface_eq (fst (New h p t c)) (fst (New h' p' t c')) = Some False"
  by (auto simp: New_def)

theorem New_distinct_witness:
  "length (snd (New [] 7 ''a'' [])) \<le> length (snd (New [] 7 ''a'' []))
   \<and> fst (New [] 7 ''a'' []) \<noteq> fst (New (snd (New [] 7 ''a'' [])) 7 ''a'' [])
   \<and> iface_eq (fst (New [] 7 ''a'' [])) (fst (New (snd (New [] 7 ''a'' [])) 7 ''a'' []))
       = Some False"
  using New_distinct [of "[]" 7 "''a''" "[]" "snd (New [] 7 ''a'' [])" 7 "[]"]
  by simp

text \<open>
  C8. On a heap where no node reaches itself along the cause links, \<open>ForCauses\<close> and
  \<open>OneCauseOf\<close> come to an end for every error, target, callback and state.
\<close>

theorem walks_terminate:
  "acyclic (cause_link h) \<Longrightarrow>
     ForCauses h err fn s \<noteq> None \<and> OneCauseOf h err target \<noteq> None"
proof
  assume a: "acyclic (cause_link h)"
  show "ForCauses h err fn s \<noteq> None"
    using ForCauses_loop_terminates [OF a, of fn err s] by (simp add: ForCauses_def)
  show "OneCauseOf h err target \<noteq> None"
  proof (cases target)
    case None
    then show ?thesis by (simp add: OneCauseOf_def iface_eq_nil del: iface_eq.simps)
  next
    case (Some t)
    with OneCauseOf_loop_terminates [OF a, of "Comparable (TypeOf t)" target err]
    show ?thesis by (simp add: OneCauseOf_def)
  qed
qed

theorem walks_terminate_witness:
  "acyclic (cause_link heap3)
   \<and> ForCauses heap3 (Some (VChain 2)) (\<lambda>e n. Suc n) (0::nat) \<noteq> None
   \<and> OneCauseOf heap3 (Some (VChain 2)) (Some (VChain 0)) \<noteq> None"
proof -
  have a: "acyclic (cause_link heap3)"
    using causes_older_heap3 by (rule causes_older_acyclic)
  from walks_terminate [OF a, of "Some (VChain 2)" "\<lambda>e n. Suc n" "0::nat" "Some (VChain 0)"] a
  show ?thesis by simp
qed

text \<open>
  C9. The error the constructor returns is a pointer to the new node, and the method
  \<open>Error\<close> on it returns the text given to the constructor, unchanged, with any causes.
\<close>

theorem New_Error_text:
  "fst (New h p t c) = Some (VChain (length h)) \<and> Error (snd (New h p t c)) (length h) = Inr t"
  by (simp add: New_def Error_def deref_def)

text \<open>
  C10. A call of the constructor with more than one cause stores nil as the cause of the
  node; a node with a non-nil cause comes from a call with exactly one cause.
\<close>

theorem New_many_causes:
  "(1 < length c \<longrightarrow> Cause (snd (New h p t c)) (fst (New h p t c)) = Inr None)
   \<and> (Cause (snd (New h p t c)) (fst (New h p t c)) \<noteq> Inr None \<longrightarrow> length c = 1)"
  by (simp add: New_def Cause_def deref_def)

theorem New_many_causes_witness:
  "1 < length [Some std_error, Some (VChain 0)]
   \<and> Cause (snd (New heap3 9 ''x'' [Some std_error, Some (VChain 0)]))
            (fst (New heap3 9 ''x'' [Some std_error, Some (VChain 0)])) = Inr None
   \<and> Cause (snd (New heap3 9 ''x'' [Some std_error]))
            (fst (New heap3 9 ''x'' [Some std_error])) \<noteq> Inr None
   \<and> length [Some std_error] = 1"
proof -
  have "Cause (snd (New heap3 9 ''x'' [Some std_error]))
            (fst (New heap3 9 ''x'' [Some std_error])) \<noteq> Inr None"
    by (simp add: New_def Cause_def deref_def)
  with New_many_causes [of "[Some std_error, Some (VChain 0)]" heap3 9 "''x''"]
       New_many_causes [of "[Some std_error]" heap3 9 "''x''"]
  show ?thesis by simp
qed

end
